theory Spec2Isabelle
  imports Main "HOL-Library.AList" "HOL-Library.Sublist" "HOL-Library.Word"
begin

section \<open>The agent synchronizer \<^verbatim>\<open>update-agents.py\<close>\<close>

text \<open>
  The script loads a JSON settings file, walks a directory of markdown documents, parses
  the frontmatter of each one with three regular expressions, stores one entry per parsed
  document under \<^verbatim>\<open>settings['agents']\<close>, dumps the settings back and prints a summary.

  Python strings are lists of characters (code points below 256); \<^verbatim>\<open>f.read()\<close> in text
  mode hands the script the document as one such string. Python dictionaries keep their
  insertion order, so they are association lists updated in place (\<open>AList.update\<close>
  overwrites the value of an existing key where it stands and appends a new key).
\<close>

subsection \<open>JSON values as \<^verbatim>\<open>json.load\<close> returns them\<close>

text \<open>A Python \<^verbatim>\<open>float\<close> is carried as its 64 bits; the script never looks into a number.\<close>

type_synonym pyfloat = "64 word"

datatype json =
    JNull
  | JBool bool
  | JInt int
  | JFloat pyfloat
  | JStr string
  | JArr "json list"
  | JObj "(string \<times> json) list"

text \<open>The exceptions that can end a run. \<open>IOFailure\<close> stands for whichever exception the
  operating system or the decoder makes \<^verbatim>\<open>os.listdir\<close>, \<^verbatim>\<open>open\<close> or \<^verbatim>\<open>read\<close> raise
  (\<^verbatim>\<open>FileNotFoundError\<close>, \<^verbatim>\<open>PermissionError\<close>, \<^verbatim>\<open>UnicodeDecodeError\<close> and so on); the others
  are the Python exceptions of those names.\<close>

datatype error =
    FileNotFoundError
  | JSONDecodeError
  | IOFailure
  | TypeError
  | KeyError
  | AttributeError

subsection \<open>String primitives\<close>

abbreviation newline :: char where
  "newline \<equiv> CHR 0x0A"

text \<open>\<^verbatim>\<open>str.isspace\<close> on one character, which is also the class \<^verbatim>\<open>\s\<close> of a \<^verbatim>\<open>str\<close>
  pattern: tab, line feed, vertical tab, form feed, carriage return, the separators
  0x1C to 0x1F, space, NEL (0x85) and the no-break space (0xA0).\<close>

definition isspace :: "char \<Rightarrow> bool" where
  "isspace c = ((of_char c :: nat) \<in> {9, 10, 11, 12, 13, 28, 29, 30, 31, 32, 133, 160})"

text \<open>\<^verbatim>\<open>s.strip()\<close>\<close>

definition strip :: "string \<Rightarrow> string" where
  "strip s = rev (dropWhile isspace (rev (dropWhile isspace s)))"

text \<open>\<^verbatim>\<open>s.endswith(suf)\<close>\<close>

definition endswith :: "string \<Rightarrow> string \<Rightarrow> bool" where
  "endswith s suf = suffix suf s"

text \<open>\<^verbatim>\<open>s.replace(old, new)\<close> for a non-empty \<open>old\<close> (the script's is \<^verbatim>\<open>.md\<close>): every
  occurrence of \<open>old\<close>, found from left to right without overlap, is replaced.\<close>

fun replace :: "string \<Rightarrow> string \<Rightarrow> string \<Rightarrow> string" where
  "replace [] old new = []"
| "replace (c # cs) old new =
     (if old \<noteq> [] \<and> prefix old (c # cs)
      then new @ replace (drop (length old) (c # cs)) old new
      else c # replace cs old new)"

text \<open>\<^verbatim>\<open>s.split('\n')\<close> and \<^verbatim>\<open>'\n'.join(ls)\<close>, used to speak about the lines of a document.\<close>

fun split_lines :: "string \<Rightarrow> string list" where
  "split_lines [] = [[]]"
| "split_lines (c # cs) =
     (if c = newline then [] # split_lines cs
      else (case split_lines cs of l # ls \<Rightarrow> (c # l) # ls | [] \<Rightarrow> [[c]]))"

fun join_lines :: "string list \<Rightarrow> string" where
  "join_lines [] = []"
| "join_lines [l] = l"
| "join_lines (l # ls) = l @ newline # join_lines ls"

subsection \<open>The three regular expressions\<close>

text \<open>
  \<^verbatim>\<open>re.match(r'^---\n(.*?)\n---\n(.*)', content, re.DOTALL)\<close>.
  The match is anchored at the start of the content, which must begin with the four
  characters \<^verbatim>\<open>---\n\<close>. The lazy group then grows one character at a time (with DOTALL a
  dot also matches a line feed) until the five characters \<^verbatim>\<open>\n---\n\<close> follow; the greedy
  second group takes all the rest. \<open>lazy_group hdr rest\<close> is the matcher standing after the
  characters \<open>hdr\<close> of the first group, with \<open>rest\<close> still to read.
\<close>

fun lazy_group :: "string \<Rightarrow> string \<Rightarrow> (string \<times> string) option" where
  "lazy_group hdr [] = None"
| "lazy_group hdr (c # cs) =
     (if prefix (newline # ''---'' @ [newline]) (c # cs)
      then Some (hdr, drop 5 (c # cs))
      else lazy_group (hdr @ [c]) cs)"

definition frontmatter_match :: "string \<Rightarrow> (string \<times> string) option" where
  "frontmatter_match content =
     (if prefix (''---'' @ [newline]) content then lazy_group [] (drop 4 content) else None)"

text \<open>
  \<^verbatim>\<open>re.search(r'^name:\s*(.+)$', frontmatter, re.MULTILINE)\<close>, and the same with
  \<^verbatim>\<open>description\<close>.

  \<open>dot_plus\<close> is \<^verbatim>\<open>(.+)$\<close>: without DOTALL a dot matches every character but the line
  feed, the greedy group takes the longest such run, which must not be empty, and the
  run ends at the end of the text or before a line feed, where \<^verbatim>\<open>$\<close> matches.
  \<open>spaces_then_value\<close> is \<^verbatim>\<open>\s*(.+)$\<close>: the greedy \<^verbatim>\<open>\s*\<close> first takes a whitespace character
  (a line feed is one) and goes on, and gives it back when what follows fails.
  \<open>field_match_here\<close> is the whole pattern tried at one position where \<^verbatim>\<open>^\<close> holds, and
  \<open>field_search\<close> is \<^verbatim>\<open>re.search\<close>: the positions are tried from left to right, \<^verbatim>\<open>^\<close> holding
  at the start of the text and after each line feed (\<open>bol\<close>). The result is group 1.
\<close>

definition dot_plus :: "string \<Rightarrow> string option" where
  "dot_plus s =
     (case takeWhile (\<lambda>c. c \<noteq> newline) s of [] \<Rightarrow> None | c # cs \<Rightarrow> Some (c # cs))"

fun spaces_then_value :: "string \<Rightarrow> string option" where
  "spaces_then_value [] = dot_plus []"
| "spaces_then_value (c # cs) =
     (case (if isspace c then spaces_then_value cs else None) of
        Some v \<Rightarrow> Some v
      | None \<Rightarrow> dot_plus (c # cs))"

definition field_match_here :: "string \<Rightarrow> string \<Rightarrow> string option" where
  "field_match_here field s =
     (if prefix (field @ '':'') s then spaces_then_value (drop (length field + 1) s) else None)"

fun field_search :: "string \<Rightarrow> bool \<Rightarrow> string \<Rightarrow> string option" where
  "field_search field bol [] = (if bol then field_match_here field [] else None)"
| "field_search field bol (c # cs) =
     (case (if bol then field_match_here field (c # cs) else None) of
        Some v \<Rightarrow> Some v
      | None \<Rightarrow> field_search field (c = newline) cs)"

subsection \<open>The operations of the specification\<close>

text \<open>\<open>parseDocument\<close>: the frontmatter match, with the body stripped.\<close>

definition parse_document :: "string \<Rightarrow> (string \<times> string) option" where
  "parse_document content =
     (case frontmatter_match content of
        None \<Rightarrow> None
      | Some (frontmatter, rest) \<Rightarrow> Some (frontmatter, strip rest))"

text \<open>\<open>extractField\<close>: the field search over the header, with group 1 stripped.\<close>

definition extract_field :: "string \<Rightarrow> string \<Rightarrow> string option" where
  "extract_field header field = map_option strip (field_search field True header)"

text \<open>\<open>buildEntry\<close>: the dictionary literal of the script.\<close>

definition build_entry :: "string \<Rightarrow> string \<Rightarrow> string \<Rightarrow> json" where
  "build_entry name description body =
     JObj [(''name'', JStr name), (''description'', JStr description), (''systemPrompt'', JStr body)]"

text \<open>The Python operators the script applies to the loaded settings, on every JSON value
  they can meet: \<^verbatim>\<open>key in x\<close>, \<^verbatim>\<open>x[key] = v\<close>, \<^verbatim>\<open>x[key]\<close>, \<^verbatim>\<open>x.get(key, default)\<close>
  and \<^verbatim>\<open>len(x)\<close>.\<close>

fun py_contains :: "json \<Rightarrow> string \<Rightarrow> error + bool" where
  "py_contains (JObj d) k = Inr (k \<in> set (map fst d))"
| "py_contains (JArr xs) k = Inr (list_ex (\<lambda>x. case x of JStr s \<Rightarrow> s = k | _ \<Rightarrow> False) xs)"
| "py_contains (JStr s) k = Inr (sublist k s)"
| "py_contains _ k = Inl TypeError"

fun py_setitem :: "json \<Rightarrow> string \<Rightarrow> json \<Rightarrow> error + json" where
  "py_setitem (JObj d) k v = Inr (JObj (AList.update k v d))"
| "py_setitem _ k v = Inl TypeError"

fun py_getitem :: "json \<Rightarrow> string \<Rightarrow> error + json" where
  "py_getitem (JObj d) k = (case map_of d k of None \<Rightarrow> Inl KeyError | Some v \<Rightarrow> Inr v)"
| "py_getitem _ k = Inl TypeError"

fun py_get :: "json \<Rightarrow> string \<Rightarrow> json \<Rightarrow> error + json" where
  "py_get (JObj d) k dflt = Inr (case map_of d k of None \<Rightarrow> dflt | Some v \<Rightarrow> v)"
| "py_get _ k dflt = Inl AttributeError"

fun py_len :: "json \<Rightarrow> error + nat" where
  "py_len (JObj d) = Inr (length d)"
| "py_len (JArr xs) = Inr (length xs)"
| "py_len (JStr s) = Inr (length s)"
| "py_len _ = Inl TypeError"

text \<open>\<open>mergeEntry\<close>:
  \<^verbatim>\<open>if 'agents' not in settings: settings['agents'] = {}\<close> and then
  \<^verbatim>\<open>settings['agents'][agent_id] = entry\<close>. The inner dictionary is mutated in place in
  Python; here the updated dictionary is stored back under the key it came from.\<close>

definition merge_entry :: "json \<Rightarrow> string \<Rightarrow> json \<Rightarrow> error + json" where
  "merge_entry settings agent_id entry =
     (case py_contains settings ''agents'' of
        Inl e \<Rightarrow> Inl e
      | Inr present \<Rightarrow>
          (case (if present then Inr settings else py_setitem settings ''agents'' (JObj [])) of
             Inl e \<Rightarrow> Inl e
           | Inr settings1 \<Rightarrow>
               (case py_getitem settings1 ''agents'' of
                  Inl e \<Rightarrow> Inl e
                | Inr agents \<Rightarrow>
                    (case py_setitem agents agent_id entry of
                       Inl e \<Rightarrow> Inl e
                     | Inr agents' \<Rightarrow> py_setitem settings1 ''agents'' agents'))))"

subsection \<open>The run\<close>

text \<open>What the script prints: \<^verbatim>\<open>Updated agent: <agent_id>\<close> for a merged document, and the
  closing line \<^verbatim>\<open>Successfully updated <n> agents in settings.local.json\<close> (after an empty
  line and a check mark), of which the count is kept.\<close>

datatype line = Updated_agent string | Summary nat

record state =
  settings :: json
  printed :: "line list"
  opened :: "string list"

text \<open>A directory entry is a file name and what opening and reading it gives: the text,
  or \<open>None\<close> when \<^verbatim>\<open>open\<close> or \<^verbatim>\<open>read\<close> raises (a directory named \<^verbatim>\<open>x.md\<close>, a file that
  cannot be read or decoded; \<open>IOFailure\<close> stands for whichever exception that is).\<close>

type_synonym dir_entry = "string \<times> string option"

definition agent_id_of :: "string \<Rightarrow> string" where
  "agent_id_of filename = replace filename ''.md'' []"

text \<open>The body of the \<^verbatim>\<open>for\<close> loop. The result is the exception that ended the run, if any,
  and the state reached.\<close>

definition process_file :: "dir_entry \<Rightarrow> state \<Rightarrow> error option \<times> state" where
  "process_file entry st =
     (let filename = fst entry in
      if endswith filename ''.md'' then
        (let agent_id = agent_id_of filename;
             st1 = st\<lparr>opened := opened st @ [filename]\<rparr>
         in case snd entry of
              None \<Rightarrow> (Some IOFailure, st1)
            | Some content \<Rightarrow>
                (case parse_document content of
                   None \<Rightarrow> (None, st1)
                 | Some (frontmatter, body) \<Rightarrow>
                     (case extract_field frontmatter ''name'' of
                        None \<Rightarrow> (None, st1)
                      | Some name \<Rightarrow>
                          (case extract_field frontmatter ''description'' of
                             None \<Rightarrow> (None, st1)
                           | Some description \<Rightarrow>
                               (case merge_entry (settings st1) agent_id
                                       (build_entry name description body) of
                                  Inl e \<Rightarrow> (Some e, st1)
                                | Inr settings' \<Rightarrow>
                                    (None, st1\<lparr>settings := settings',
                                       printed := printed st1 @ [Updated_agent agent_id]\<rparr>))))))
      else (None, st))"

fun process_files :: "dir_entry list \<Rightarrow> state \<Rightarrow> error option \<times> state" where
  "process_files [] st = (None, st)"
| "process_files (entry # rest) st =
     (case process_file entry st of
        (Some e, st') \<Rightarrow> (Some e, st')
      | (None, st') \<Rightarrow> process_files rest st')"

text \<open>\<^verbatim>\<open>len(settings.get('agents', {}))\<close>\<close>

definition summary_count :: "json \<Rightarrow> error + nat" where
  "summary_count s =
     (case py_get s ''agents'' (JObj []) of Inl e \<Rightarrow> Inl e | Inr v \<Rightarrow> py_len v)"

text \<open>The world the script runs in: what opening and \<^verbatim>\<open>json.load\<close>ing the settings file
  gives, whether the file can be opened for writing, and the listing of the agents
  directory in the order of \<^verbatim>\<open>os.listdir\<close> (\<open>None\<close> when it raises).\<close>

datatype json_file = Missing | Not_json | Json json

record world =
  settings_file :: json_file
  settings_writable :: bool
  agents_dir :: "dir_entry list option"

text \<open>What a run leaves behind: the uncaught exception if any, the lines printed, the
  documents opened, and the value dumped to the settings file (\<open>None\<close> when the file was
  not written).\<close>

record outcome =
  raised :: "error option"
  stdout :: "line list"
  files_read :: "string list"
  written :: "json option"

definition run :: "world \<Rightarrow> outcome" where
  "run w =
     (case settings_file w of
        Missing \<Rightarrow> \<lparr>raised = Some FileNotFoundError, stdout = [], files_read = [], written = None\<rparr>
      | Not_json \<Rightarrow> \<lparr>raised = Some JSONDecodeError, stdout = [], files_read = [], written = None\<rparr>
      | Json loaded \<Rightarrow>
          (case agents_dir w of
             None \<Rightarrow> \<lparr>raised = Some IOFailure, stdout = [], files_read = [], written = None\<rparr>
           | Some listing \<Rightarrow>
               (case process_files listing \<lparr>settings = loaded, printed = [], opened = []\<rparr> of
                  (Some e, st) \<Rightarrow>
                    \<lparr>raised = Some e, stdout = printed st, files_read = opened st, written = None\<rparr>
                | (None, st) \<Rightarrow>
                    if \<not> settings_writable w then
                      \<lparr>raised = Some IOFailure, stdout = printed st, files_read = opened st,
                       written = None\<rparr>
                    else
                      (case summary_count (settings st) of
                         Inl e \<Rightarrow>
                           \<lparr>raised = Some e, stdout = printed st, files_read = opened st,
                            written = Some (settings st)\<rparr>
                       | Inr n \<Rightarrow>
                           \<lparr>raised = None, stdout = printed st @ [Summary n],
                            files_read = opened st, written = Some (settings st)\<rparr>))))"

subsection \<open>Notions used to state the properties\<close>

text \<open>The specification's identifier: the file name without its extension, that is, with
  the trailing \<^verbatim>\<open>.md\<close> removed.\<close>

definition filename_without_extension :: "string \<Rightarrow> string" where
  "filename_without_extension filename = take (length filename - length ''.md'') filename"

text \<open>The entry a document contributes, when its frontmatter and both of its fields are
  found: the three nested tests of the loop body, taken together.\<close>

definition document_entry :: "string \<Rightarrow> json option" where
  "document_entry content =
     (case parse_document content of
        None \<Rightarrow> None
      | Some (frontmatter, body) \<Rightarrow>
          (case extract_field frontmatter ''name'' of
             None \<Rightarrow> None
           | Some name \<Rightarrow>
               (case extract_field frontmatter ''description'' of
                  None \<Rightarrow> None
                | Some description \<Rightarrow> Some (build_entry name description body))))"

text \<open>The documents of a listing that are merged, in order: identifier and entry.\<close>

fun merged :: "dir_entry list \<Rightarrow> (string \<times> json) list" where
  "merged [] = []"
| "merged ((filename, doc) # rest) =
     (if endswith filename ''.md'' then
        (case doc of
           None \<Rightarrow> merged rest
         | Some content \<Rightarrow>
             (case document_entry content of
                None \<Rightarrow> merged rest
              | Some entry \<Rightarrow> (agent_id_of filename, entry) # merged rest))
      else merged rest)"

text \<open>The markdown files of a listing, in order.\<close>

definition markdown_names :: "dir_entry list \<Rightarrow> string list" where
  "markdown_names listing = filter (\<lambda>filename. endswith filename ''.md'') (map fst listing)"

text \<open>The merges of a run one after the other, stopping at the first exception.\<close>

fun merge_all :: "(string \<times> json) list \<Rightarrow> json \<Rightarrow> error + json" where
  "merge_all [] s = Inr s"
| "merge_all ((agent_id, entry) # rest) s =
     (case merge_entry s agent_id entry of Inl e \<Rightarrow> Inl e | Inr s' \<Rightarrow> merge_all rest s')"

text \<open>A sequence of assignments \<^verbatim>\<open>a[k] = v\<close> on one dictionary.\<close>

fun upds :: "(string \<times> json) list \<Rightarrow> (string \<times> json) list \<Rightarrow> (string \<times> json) list" where
  "upds [] a = a"
| "upds ((k, v) # us) a = upds us (AList.update k v a)"

text \<open>The entry stored for an identifier in the \<^verbatim>\<open>agents\<close> mapping of a settings store.\<close>

definition agents_entry :: "json \<Rightarrow> string \<Rightarrow> json option" where
  "agents_entry s agent_id =
     (case s of
        JObj d \<Rightarrow> (case map_of d ''agents'' of Some (JObj a) \<Rightarrow> map_of a agent_id | _ \<Rightarrow> None)
      | _ \<Rightarrow> None)"

text \<open>The settings store of the data model: a JSON object whose \<^verbatim>\<open>agents\<close>, when present,
  is a mapping (a dictionary, whose keys are distinct as in every Python dictionary).\<close>

definition agents_is_mapping :: "json \<Rightarrow> bool" where
  "agents_is_mapping s =
     (case s of
        JObj d \<Rightarrow>
          (case map_of d ''agents'' of
             None \<Rightarrow> True
           | Some (JObj a) \<Rightarrow> distinct (map fst a)
           | Some _ \<Rightarrow> False)
      | _ \<Rightarrow> False)"

subsection \<open>Sample data\<close>

definition doc_foo_bar :: string where
  "doc_foo_bar = join_lines [''---'', ''name: Foo'', ''description: Bar'', ''---'', ''Hello world'']"

definition doc_no_closing :: string where
  "doc_no_closing = join_lines [''---'', ''name: Foo'', ''description: Bar'', ''Hello world'']"

definition doc_no_name :: string where
  "doc_no_name = join_lines [''---'', ''description: Bar'', ''---'', ''Hello world'']"

definition foo_bar_entry :: json where
  "foo_bar_entry =
     JObj [(''name'', JStr ''Foo''), (''description'', JStr ''Bar''),
           (''systemPrompt'', JStr ''Hello world'')]"

definition old_entry :: json where
  "old_entry = JObj [(''name'', JStr ''Old''), (''extra'', JBool True)]"

definition sample_store :: "(string \<times> json) list" where
  "sample_store =
     [(''theme'', JStr ''dark''),
      (''agents'', JObj [(''x'', old_entry), (''draft'', JStr ''kept'')])]"

definition sample_listing :: "dir_entry list" where
  "sample_listing =
     [(''x.md'', Some doc_foo_bar), (''notes.txt'', None),
      (''draft.md'', Some doc_no_closing), (''noname.md'', Some doc_no_name)]"

definition sample_world :: world where
  "sample_world =
     \<lparr>settings_file = Json (JObj sample_store), settings_writable = True,
      agents_dir = Some sample_listing\<rparr>"

definition sample_store_after :: "(string \<times> json) list" where
  "sample_store_after =
     [(''theme'', JStr ''dark''),
      (''agents'', JObj [(''x'', foo_bar_entry), (''draft'', JStr ''kept'')])]"




definition doc_two_names :: string where
  "doc_two_names =
     join_lines [''---'', ''name: Other'', ''name: Foo'', ''description: Bar'', ''---'',
                 ''Hello world'']"

definition two_names_world :: world where
  "two_names_world =
     \<lparr>settings_file = Json (JObj []), settings_writable = True,
      agents_dir = Some [(''x.md'', Some doc_two_names)]\<rparr>"

definition doc_other :: string where
  "doc_other = join_lines [''---'', ''name: Other'', ''description: Baz'', ''---'', ''Second'']"

definition doc_empty_name :: string where
  "doc_empty_name = join_lines [''---'', ''name:'', ''description: Bar'', ''---'', ''Hello world'']"

definition clash_world :: world where
  "clash_world =
     \<lparr>settings_file = Json (JObj []), settings_writable = True,
      agents_dir = Some [(''a.md'', Some doc_foo_bar), (''a.md.md'', Some doc_other)]\<rparr>"

text \<open>Three well-formed documents, two malformed ones, and one entry that belongs to no
  file.\<close>

definition count_store :: json where
  "count_store = JObj [(''agents'', JObj [(''stale'', old_entry)])]"

definition count_listing :: "dir_entry list" where
  "count_listing =
     [(''a.md'', Some doc_foo_bar), (''d.md'', Some doc_no_closing), (''b.md'', Some doc_foo_bar),
      (''e.md'', Some doc_no_name), (''c.md'', Some doc_foo_bar)]"

definition count_world :: world where
  "count_world =
     \<lparr>settings_file = Json count_store, settings_writable = True,
      agents_dir = Some count_listing\<rparr>"

section \<open>Properties\<close>

subsection \<open>Lines and the frontmatter match\<close>

lemma split_lines_nonempty: "split_lines s \<noteq> []"
  by (induction s) (auto split: list.splits)

lemma split_lines_append: "split_lines (xs @ newline # ys) = split_lines xs @ split_lines ys"
  by (induction xs) (auto split: list.splits simp: split_lines_nonempty)

lemma lazy_group_Some:
  "lazy_group hdr rest = Some (h, b) \<Longrightarrow>
     \<exists>h'. h = hdr @ h' \<and> rest = h' @ newline # ''---'' @ newline # b"
proof (induction rest arbitrary: hdr)
  case Nil
  then show ?case by simp
next
  case (Cons c cs)
  show ?case
  proof (cases "prefix (newline # ''---'' @ [newline]) (c # cs)")
    case True
    then obtain zs where "c # cs = (newline # ''---'' @ [newline]) @ zs"
      by (auto simp: prefix_def)
    with Cons.prems True show ?thesis by auto
  next
    case False
    with Cons.prems have "lazy_group (hdr @ [c]) cs = Some (h, b)"
      by (simp only: lazy_group.simps if_False)
    from Cons.IH[OF this] show ?thesis by auto
  qed
qed

lemma frontmatter_match_Some:
  "frontmatter_match content = Some (h, b) \<Longrightarrow>
     content = ''---'' @ newline # h @ newline # ''---'' @ newline # b"
  unfolding frontmatter_match_def
  by (auto split: if_splits simp: prefix_def dest!: lazy_group_Some)

lemma split_lines_dashes: "split_lines ''---'' = [''---'']"
  by simp

lemma frontmatter_match_lines:
  assumes "frontmatter_match content = Some (h, b)"
  shows "split_lines content = ''---'' # split_lines h @ ''---'' # split_lines b"
proof -
  have "content = ''---'' @ newline # (h @ newline # (''---'' @ newline # b))"
    using frontmatter_match_Some[OF assms] by simp
  then have "split_lines content =
      split_lines ''---'' @ split_lines h @ split_lines ''---'' @ split_lines b"
    by (simp only: split_lines_append)
  then show ?thesis by (simp only: split_lines_dashes append_Cons append_Nil)
qed










lemma no_closing_line:
  assumes "''---'' \<notin> set (tl (split_lines content))"
  shows "parse_document content = None"
proof (cases "frontmatter_match content")
  case None
  then show ?thesis by (simp add: parse_document_def)
next
  case (Some p)
  obtain h b where "p = (h, b)" by (cases p)
  with Some frontmatter_match_lines[of content h b] assms show ?thesis by simp
qed

subsection \<open>The field search finds its field at the start of a line\<close>

lemma first_line_append:
  "newline \<notin> set p \<Longrightarrow> hd (split_lines (p @ r)) = p @ hd (split_lines r)"
  by (induction p) (auto split: list.splits simp: split_lines_nonempty)

lemma prefix_first_line:
  assumes "prefix p s" and "newline \<notin> set p"
  shows "prefix p (hd (split_lines s))"
proof -
  from assms(1) obtain r where "s = p @ r" by (auto simp: prefix_def)
  with first_line_append[OF assms(2), of r] show ?thesis by simp
qed

lemma field_match_here_prefix:
  "field_match_here field s = Some v \<Longrightarrow> prefix (field @ '':'') s"
  by (simp add: field_match_here_def split: if_splits)

lemma field_search_line:
  assumes "newline \<notin> set field"
  shows "field_search field bol s = Some v \<Longrightarrow>
     (bol \<and> prefix (field @ '':'') (hd (split_lines s)))
     \<or> (\<exists>l\<in>set (tl (split_lines s)). prefix (field @ '':'') l)"
proof (induction s arbitrary: bol)
  case Nil
  then show ?case
    by (auto simp: field_match_here_def split: if_splits)
next
  case (Cons c cs)
  have nl: "newline \<notin> set (field @ '':'')" using assms by simp
  show ?case
  proof (cases "bol \<and> field_match_here field (c # cs) \<noteq> None")
    case True
    then obtain v' where "field_match_here field (c # cs) = Some v'" by auto
    from prefix_first_line[OF field_match_here_prefix[OF this] nl] True
    show ?thesis by simp
  next
    case False
    with Cons.prems have "field_search field (c = newline) cs = Some v"
      by (auto split: if_splits option.splits)
    from Cons.IH[OF this]
    consider "c = newline" "prefix (field @ '':'') (hd (split_lines cs))"
      | l where "l \<in> set (tl (split_lines cs))" "prefix (field @ '':'') l"
      by auto
    then show ?thesis
    proof cases
      case 1
      have "hd (split_lines cs) \<in> set (split_lines cs)"
        using split_lines_nonempty[of cs] by simp
      with 1 show ?thesis by auto
    next
      case 2
      then show ?thesis
        by (cases "split_lines cs") (auto simp: split_lines_nonempty)
    qed
  qed
qed






lemma extract_field_line:
  assumes "extract_field header field = Some v" and "newline \<notin> set field"
  shows "\<exists>l\<in>set (split_lines header). prefix (field @ '':'') l"
proof -
  from assms(1) obtain v' where "field_search field True header = Some v'"
    by (auto simp: extract_field_def)
  from field_search_line[OF assms(2) this] show ?thesis
    using split_lines_nonempty[of header]
    by (cases "split_lines header") auto
qed

lemma malformed_no_entry:
  assumes "''---'' \<notin> set (tl (split_lines content))
           \<or> (\<exists>header body. parse_document content = Some (header, body)
                \<and> (\<forall>l\<in>set (split_lines header). \<not> prefix ''name:'' l))"
  shows "document_entry content = None"
  using assms
proof
  assume "''---'' \<notin> set (tl (split_lines content))"
  then show ?thesis by (simp add: document_entry_def no_closing_line)
next
  assume "\<exists>header body. parse_document content = Some (header, body)
                \<and> (\<forall>l\<in>set (split_lines header). \<not> prefix ''name:'' l)"
  then obtain header body where p: "parse_document content = Some (header, body)"
    and n: "\<forall>l\<in>set (split_lines header). \<not> prefix ''name:'' l" by blast
  have "extract_field header ''name'' = None"
  proof (cases "extract_field header ''name''")
    case None
    then show ?thesis .
  next
    case (Some v)
    from extract_field_line[OF Some] n show ?thesis by auto
  qed
  with p show ?thesis by (simp add: document_entry_def)
qed

subsection \<open>Association lists under repeated assignment\<close>

lemma update_commute:
  "k \<in> fst ` set al \<Longrightarrow> k \<noteq> k' \<Longrightarrow>
     AList.update k' v' (AList.update k v al) = AList.update k v (AList.update k' v' al)"
  by (induction al) auto

lemma update_absent: "k \<notin> fst ` set al \<Longrightarrow> AList.update k v al = al @ [(k, v)]"
  by (induction al) auto

lemma update_append_left:
  "k \<in> fst ` set x \<Longrightarrow> AList.update k v (x @ y) = AList.update k v x @ y"
  by (induction x) auto

lemma upds_snoc: "upds (us @ [(k, v)]) a = AList.update k v (upds us a)"
  by (induction us a rule: upds.induct) auto

lemma keys_upds: "fst ` set (upds us a) = fst ` set us \<union> fst ` set a"
  by (induction us a rule: upds.induct) (auto simp: AList.dom_update)

lemma upds_append_left:
  "fst ` set us \<subseteq> fst ` set x \<Longrightarrow> upds us (x @ y) = upds us x @ y"
proof (induction us x rule: upds.induct)
  case (1 a)
  then show ?case by simp
next
  case (2 k v us a)
  from "2.prems" have k: "k \<in> fst ` set a" by auto
  from "2.prems" have "fst ` set us \<subseteq> fst ` set (AList.update k v a)"
    by (auto simp: AList.dom_update)
  from "2.IH"[OF this] k show ?case by (simp add: update_append_left)
qed

lemma update_absorbs:
  "k \<in> fst ` set x \<Longrightarrow>
     AList.update k v (upds us (AList.update k v' x)) = AList.update k v (upds us x)"
proof (induction us x rule: upds.induct)
  case (1 a)
  then show ?case by simp
next
  case (2 k1 v1 us a)
  show ?case
  proof (cases "k1 = k")
    case True
    then show ?thesis by simp
  next
    case False
    have "AList.update k1 v1 (AList.update k v' a) = AList.update k v' (AList.update k1 v1 a)"
      using update_commute[OF "2.prems", of k1 v1 v'] False by simp
    moreover have "k \<in> fst ` set (AList.update k1 v1 a)"
      using "2.prems" by (simp add: AList.dom_update)
    ultimately show ?thesis using "2.IH" by simp
  qed
qed

lemma upds_idem: "upds us (upds us a) = upds us a"
proof (induction us rule: rev_induct)
  case Nil
  then show ?case by simp
next
  case (snoc u us)
  obtain k v where u: "u = (k, v)" by (cases u)
  let ?B = "upds us a"
  show ?case
  proof (cases "k \<in> fst ` set ?B")
    case True
    have "upds (us @ [u]) (upds (us @ [u]) a) = AList.update k v (upds us (AList.update k v ?B))"
      by (simp add: u upds_snoc)
    also have "\<dots> = AList.update k v (upds us ?B)"
      by (rule update_absorbs[OF True])
    also have "\<dots> = AList.update k v ?B" by (simp add: snoc.IH)
    finally show ?thesis by (simp add: u upds_snoc)
  next
    case False
    then have B: "AList.update k v ?B = ?B @ [(k, v)]" by (rule update_absent)
    have sub: "fst ` set us \<subseteq> fst ` set ?B" by (simp add: keys_upds)
    have "upds (us @ [u]) (upds (us @ [u]) a) = AList.update k v (upds us (?B @ [(k, v)]))"
      by (simp add: u upds_snoc B)
    also have "\<dots> = AList.update k v (upds us ?B @ [(k, v)])"
      by (simp only: upds_append_left[OF sub])
    also have "\<dots> = AList.update k v (AList.update k v ?B)"
      by (simp only: snoc.IH B)
    also have "\<dots> = AList.update k v ?B" by simp
    finally show ?thesis by (simp add: u upds_snoc)
  qed
qed

subsection \<open>One merge\<close>

lemma map_of_None_keys: "(k \<in> set (map fst d)) = (map_of d k \<noteq> None)"
  using map_of_eq_None_iff[of d k] by simp

lemma merge_entry_obj:
  "merge_entry (JObj d) x e =
     (case map_of d ''agents'' of
        None \<Rightarrow> Inr (JObj (AList.update ''agents'' (JObj [(x, e)]) d))
      | Some (JObj a) \<Rightarrow> Inr (JObj (AList.update ''agents'' (JObj (AList.update x e a)) d))
      | Some _ \<Rightarrow> Inl TypeError)"
proof (cases "map_of d ''agents''")
  case None
  then have "''agents'' \<notin> set (map fst d)" by (simp only: map_of_None_keys) simp
  then show ?thesis using None
    by (simp add: merge_entry_def AList.update_conv')
next
  case (Some v)
  then have "''agents'' \<in> set (map fst d)" by (simp only: map_of_None_keys) simp
  then show ?thesis using Some
    by (cases v) (simp_all add: merge_entry_def)
qed

lemma merge_entry_not_obj:
  "\<forall>d. s \<noteq> JObj d \<Longrightarrow> merge_entry s x e = Inl TypeError"
  by (cases s) (simp_all add: merge_entry_def)

lemma merge_entry_frame:
  assumes "merge_entry (JObj d) x e = Inr s'" and "k \<noteq> ''agents''"
  shows "\<exists>d'. s' = JObj d' \<and> map_of d' k = map_of d k"
  using assms
  by (auto simp: merge_entry_obj AList.update_conv' split: option.splits json.splits)

lemma merge_entry_stored:
  "merge_entry s x e = Inr s' \<Longrightarrow> agents_entry s' x = Some e"
  by (cases s)
     (auto simp: merge_entry_obj merge_entry_not_obj agents_entry_def AList.update_conv'
           split: option.splits json.splits)

lemma merge_entry_other:
  "merge_entry s y e = Inr s' \<Longrightarrow> x \<noteq> y \<Longrightarrow> agents_entry s' x = agents_entry s x"
  by (cases s)
     (auto simp: merge_entry_obj merge_entry_not_obj agents_entry_def AList.update_conv'
           split: option.splits json.splits)

lemma merge_entry_mapping:
  assumes "agents_is_mapping s"
  shows "\<exists>s'. merge_entry s x e = Inr s' \<and> agents_is_mapping s'"
proof -
  from assms obtain d where d: "s = JObj d"
    by (cases s) (auto simp: agents_is_mapping_def)
  show ?thesis
  proof (cases "map_of d ''agents''")
    case None
    then show ?thesis
      by (simp add: d merge_entry_obj agents_is_mapping_def AList.update_conv')
  next
    case (Some v)
    with assms d obtain a where a: "v = JObj a" "distinct (map fst a)"
      by (cases v) (auto simp: agents_is_mapping_def)
    with Some show ?thesis
      by (simp add: d merge_entry_obj agents_is_mapping_def AList.update_conv'
            AList.distinct_update)
  qed
qed

subsection \<open>A sequence of merges\<close>

lemma merge_all_append:
  "merge_all (us @ vs) s =
     (case merge_all us s of Inl e \<Rightarrow> Inl e | Inr s' \<Rightarrow> merge_all vs s')"
  by (induction us arbitrary: s) (auto split: sum.splits)

lemma merge_all_other:
  "merge_all us s = Inr s' \<Longrightarrow> x \<notin> fst ` set us \<Longrightarrow> agents_entry s' x = agents_entry s x"
proof (induction us arbitrary: s)
  case Nil
  then show ?case by simp
next
  case (Cons u us)
  obtain y e where u: "u = (y, e)" by (cases u)
  from Cons.prems(1) u obtain s1 where s1: "merge_entry s y e = Inr s1"
    and rest: "merge_all us s1 = Inr s'"
    by (auto split: sum.splits)
  from Cons.prems(2) u have "x \<noteq> y" "x \<notin> fst ` set us" by auto
  with Cons.IH[OF rest] merge_entry_other[OF s1] show ?case by simp
qed

lemma merge_all_mapping:
  "agents_is_mapping s \<Longrightarrow> \<exists>s'. merge_all us s = Inr s' \<and> agents_is_mapping s'"
proof (induction us arbitrary: s)
  case Nil
  then show ?case by simp
next
  case (Cons u us)
  obtain x e where u: "u = (x, e)" by (cases u)
  from merge_entry_mapping[OF Cons.prems, of x e]
  obtain s1 where s1: "merge_entry s x e = Inr s1" "agents_is_mapping s1" by blast
  from Cons.IH[OF s1(2)] s1(1) show ?case by (simp add: u)
qed

lemma merge_all_with_agents:
  "map_of d ''agents'' = Some (JObj a) \<Longrightarrow>
     merge_all us (JObj d) = Inr (JObj (AList.update ''agents'' (JObj (upds us a)) d))"
proof (induction us arbitrary: d a)
  case Nil
  then show ?case by (simp add: AList.update_triv)
next
  case (Cons u us)
  obtain x e where u: "u = (x, e)" by (cases u)
  let ?d1 = "AList.update ''agents'' (JObj (AList.update x e a)) d"
  have m: "map_of ?d1 ''agents'' = Some (JObj (AList.update x e a))"
    by (simp add: AList.update_conv')
  from Cons.IH[OF m] Cons.prems show ?case
    by (simp add: u merge_entry_obj)
qed

lemma merge_all_without_agents:
  assumes "map_of d ''agents'' = None" and "us \<noteq> []"
  shows "merge_all us (JObj d) = Inr (JObj (AList.update ''agents'' (JObj (upds us [])) d))"
proof -
  from assms(2) obtain u rest where us: "us = u # rest" by (cases us) auto
  obtain x e where u: "u = (x, e)" by (cases u)
  let ?d1 = "AList.update ''agents'' (JObj [(x, e)]) d"
  have m: "map_of ?d1 ''agents'' = Some (JObj [(x, e)])"
    by (simp add: AList.update_conv')
  from merge_all_with_agents[OF m, of rest] assms(1) show ?thesis
    by (simp add: us u merge_entry_obj)
qed

lemma merge_all_Inr_cases:
  assumes "merge_all us s = Inr s'"
  shows "us = [] \<and> s' = s
       \<or> (\<exists>d a. s = JObj d \<and> map_of d ''agents'' = Some (JObj a)
              \<and> s' = JObj (AList.update ''agents'' (JObj (upds us a)) d))
       \<or> (\<exists>d. s = JObj d \<and> map_of d ''agents'' = None \<and> us \<noteq> []
              \<and> s' = JObj (AList.update ''agents'' (JObj (upds us [])) d))"
proof (cases us)
  case Nil
  with assms show ?thesis by simp
next
  case (Cons u rest)
  obtain x e where u: "u = (x, e)" by (cases u)
  from assms Cons u obtain s1 where s1: "merge_entry s x e = Inr s1"
    by (auto split: sum.splits)
  then obtain d where d: "s = JObj d"
    using merge_entry_not_obj[of s x e] by auto
  show ?thesis
  proof (cases "map_of d ''agents''")
    case None
    with merge_all_without_agents[OF None, of us] assms d Cons show ?thesis by auto
  next
    case (Some v)
    with s1 d obtain a where a: "v = JObj a"
      by (cases v) (auto simp: merge_entry_obj)
    with merge_all_with_agents[of d a us] Some assms d show ?thesis by auto
  qed
qed

lemma merge_all_idem:
  assumes "merge_all us s = Inr s'"
  shows "merge_all us s' = Inr s'"
proof -
  have key: "merge_all us (JObj (AList.update ''agents'' (JObj (upds us a)) d)) =
             Inr (JObj (AList.update ''agents'' (JObj (upds us a)) d))" for a d
  proof -
    let ?d1 = "AList.update ''agents'' (JObj (upds us a)) d"
    have m: "map_of ?d1 ''agents'' = Some (JObj (upds us a))"
      by (simp add: AList.update_conv')
    show ?thesis
      by (simp add: merge_all_with_agents[OF m] upds_idem)
  qed
  from merge_all_Inr_cases[OF assms] show ?thesis
    using assms key by auto
qed

lemma summary_count_mapping:
  assumes "agents_is_mapping s"
  shows "summary_count s = Inr (card (dom (agents_entry s)))"
proof -
  from assms obtain d where d: "s = JObj d"
    by (cases s) (auto simp: agents_is_mapping_def)
  show ?thesis
  proof (cases "map_of d ''agents''")
    case None
    then have "agents_entry s = (\<lambda>x. None)"
      by (simp add: d agents_entry_def fun_eq_iff)
    with None show ?thesis by (simp add: d summary_count_def)
  next
    case (Some v)
    with assms d obtain a where a: "v = JObj a" "distinct (map fst a)"
      by (cases v) (auto simp: agents_is_mapping_def)
    have "agents_entry s = map_of a"
      using Some a(1) by (simp add: d agents_entry_def fun_eq_iff)
    moreover have "card (dom (map_of a)) = length a"
      using a(2) distinct_card[of "map fst a"] by (simp add: dom_map_of_conv_image_fst)
    ultimately show ?thesis using Some a(1) by (simp add: d summary_count_def)
  qed
qed

subsection \<open>The merged documents of a listing\<close>

lemma merged_append: "merged (xs @ ys) = merged xs @ merged ys"
  by (induction xs rule: merged.induct) (auto split: option.splits)

lemma merged_origin:
  "(x, entry) \<in> set (merged listing) \<Longrightarrow>
     \<exists>filename content. (filename, Some content) \<in> set listing
        \<and> endswith filename ''.md'' \<and> document_entry content = Some entry
        \<and> x = agent_id_of filename"
proof (induction listing)
  case Nil
  then show ?case by simp
next
  case (Cons e rest)
  obtain filename doc where e: "e = (filename, doc)" by (cases e)
  from Cons.prems e
  consider "(x, entry) \<in> set (merged rest)"
    | content where "endswith filename ''.md''" "doc = Some content"
        "document_entry content = Some entry" "x = agent_id_of filename"
    by (auto split: if_splits option.splits)
  then show ?case
  proof cases
    case 1
    from Cons.IH[OF this] show ?thesis by auto
  next
    case 2
    then show ?thesis by (auto simp: e)
  qed
qed

lemma no_later_identifier:
  assumes "\<forall>e\<in>set after. endswith (fst e) ''.md'' \<longrightarrow> agent_id_of (fst e) \<noteq> x"
  shows "x \<notin> fst ` set (merged after)"
proof
  assume "x \<in> fst ` set (merged after)"
  then obtain entry where "(x, entry) \<in> set (merged after)" by auto
  from merged_origin[OF this] assms show False by force
qed

lemma final_entry:
  assumes "merge_all (merged (before @ (filename, Some content) # after)) s = Inr s'"
    and "endswith filename ''.md''"
    and "document_entry content = Some entry"
    and "agent_id_of filename \<notin> fst ` set (merged after)"
  shows "agents_entry s' (agent_id_of filename) = Some entry"
proof -
  have "merged (before @ (filename, Some content) # after)
        = merged before @ (agent_id_of filename, entry) # merged after"
    using assms(2,3) by (simp add: merged_append)
  with assms(1) obtain s1 s2 where
    "merge_entry s1 (agent_id_of filename) entry = Inr s2" "merge_all (merged after) s2 = Inr s'"
    by (auto simp: merge_all_append split: sum.splits)
  with merge_all_other[OF this(2) assms(4)] merge_entry_stored[OF this(1)]
  show ?thesis by simp
qed

subsection \<open>The loop body, case by case\<close>

lemma process_file_other:
  "\<not> endswith filename ''.md'' \<Longrightarrow> process_file (filename, doc) st = (None, st)"
  by (simp add: process_file_def)

lemma process_file_unreadable:
  "endswith filename ''.md'' \<Longrightarrow>
     process_file (filename, None) st = (Some IOFailure, st\<lparr>opened := opened st @ [filename]\<rparr>)"
  by (simp add: process_file_def)

lemma process_file_skip:
  "endswith filename ''.md'' \<Longrightarrow> document_entry content = None \<Longrightarrow>
     process_file (filename, Some content) st = (None, st\<lparr>opened := opened st @ [filename]\<rparr>)"
  by (auto simp: process_file_def document_entry_def split: option.splits)

lemma process_file_merge:
  "endswith filename ''.md'' \<Longrightarrow> document_entry content = Some entry \<Longrightarrow>
     process_file (filename, Some content) st =
       (case merge_entry (settings st) (agent_id_of filename) entry of
          Inl e \<Rightarrow> (Some e, st\<lparr>opened := opened st @ [filename]\<rparr>)
        | Inr s' \<Rightarrow> (None, st\<lparr>opened := opened st @ [filename], settings := s',
                     printed := printed st @ [Updated_agent (agent_id_of filename)]\<rparr>))"
  by (auto simp: process_file_def document_entry_def Let_def split: option.splits sum.splits)

lemma process_file_cases:
  obtains (other) "\<not> endswith filename ''.md''"
        "process_file (filename, doc) st = (None, st)"
  | (unreadable) "endswith filename ''.md''" "doc = None"
        "process_file (filename, doc) st = (Some IOFailure, st\<lparr>opened := opened st @ [filename]\<rparr>)"
  | (skip) content where "endswith filename ''.md''" "doc = Some content"
        "document_entry content = None"
        "process_file (filename, doc) st = (None, st\<lparr>opened := opened st @ [filename]\<rparr>)"
  | (fail) content entry e where "endswith filename ''.md''" "doc = Some content"
        "document_entry content = Some entry"
        "merge_entry (settings st) (agent_id_of filename) entry = Inl e"
        "process_file (filename, doc) st = (Some e, st\<lparr>opened := opened st @ [filename]\<rparr>)"
  | (merge) content entry s' where "endswith filename ''.md''" "doc = Some content"
        "document_entry content = Some entry"
        "merge_entry (settings st) (agent_id_of filename) entry = Inr s'"
        "process_file (filename, doc) st =
           (None, st\<lparr>opened := opened st @ [filename], settings := s',
                     printed := printed st @ [Updated_agent (agent_id_of filename)]\<rparr>)"
proof (cases "endswith filename ''.md''")
  case False
  then show ?thesis using other by (simp add: process_file_other)
next
  case md: True
  show ?thesis
  proof (cases doc)
    case None
    with md show ?thesis using unreadable by (simp add: process_file_unreadable)
  next
    case (Some content)
    note doc = this
    show ?thesis
    proof (cases "document_entry content")
      case None
      with md doc show ?thesis using skip by (simp add: process_file_skip)
    next
      case (Some entry)
      note entry = this
      show ?thesis
      proof (cases "merge_entry (settings st) (agent_id_of filename) entry")
        case (Inl e)
        with md doc entry show ?thesis using fail by (simp add: process_file_merge)
      next
        case (Inr s')
        with md doc entry show ?thesis using merge by (simp add: process_file_merge)
      qed
    qed
  qed
qed

lemma process_file_stores:
  assumes "endswith filename ''.md''" and "document_entry content = Some entry"
    and "process_file (filename, Some content) st = (None, st')"
  shows "agents_entry (settings st') (agent_id_of filename) = Some entry
         \<and> printed st' = printed st @ [Updated_agent (agent_id_of filename)]"
proof (cases "merge_entry (settings st) (agent_id_of filename) entry")
  case (Inl e)
  with assms show ?thesis by (simp add: process_file_merge)
next
  case (Inr s1)
  with assms merge_entry_stored[OF Inr] show ?thesis
    by (auto simp: process_file_merge)
qed

subsection \<open>The loop\<close>

lemma process_file_frame:
  assumes "process_file entry st = (r, st')" and "settings st = JObj d" and "k \<noteq> ''agents''"
  shows "\<exists>d'. settings st' = JObj d' \<and> map_of d' k = map_of d k"
proof -
  obtain filename doc where entry: "entry = (filename, doc)" by (cases entry)
  show ?thesis
  proof (cases filename doc st rule: process_file_cases)
    case (merge content e s1)
    from merge_entry_frame[OF merge(4)[unfolded assms(2)] assms(3)] merge(5) assms(1) entry
    show ?thesis by auto
  qed (use assms entry in auto)
qed

lemma process_files_frame:
  "process_files listing st = (r, st') \<Longrightarrow> settings st = JObj d \<Longrightarrow> k \<noteq> ''agents'' \<Longrightarrow>
     \<exists>d'. settings st' = JObj d' \<and> map_of d' k = map_of d k"
proof (induction listing arbitrary: st d)
  case Nil
  then show ?case by simp
next
  case (Cons entry rest)
  obtain r1 st1 where step: "process_file entry st = (r1, st1)"
    by (cases "process_file entry st")
  from process_file_frame[OF step Cons.prems(2,3)]
  obtain d1 where d1: "settings st1 = JObj d1" "map_of d1 k = map_of d k" by blast
  show ?case
  proof (cases r1)
    case None
    with Cons.prems(1) step have "process_files rest st1 = (r, st')" by simp
    from Cons.IH[OF this d1(1) Cons.prems(3)] d1(2) show ?thesis by auto
  next
    case (Some e)
    with Cons.prems(1) step have "st' = st1" by simp
    with d1 show ?thesis by auto
  qed
qed

lemma process_files_success:
  "process_files listing st = (None, st') \<Longrightarrow>
     merge_all (merged listing) (settings st) = Inr (settings st')
     \<and> printed st' = printed st @ map (\<lambda>u. Updated_agent (fst u)) (merged listing)
     \<and> opened st' = opened st @ markdown_names listing"
proof (induction listing arbitrary: st)
  case Nil
  then show ?case by (simp add: markdown_names_def)
next
  case (Cons entry rest)
  obtain filename doc where entry: "entry = (filename, doc)" by (cases entry)
  show ?case
  proof (cases filename doc st rule: process_file_cases)
    case other
    with Cons.prems entry have "process_files rest st = (None, st')" by simp
    from Cons.IH[OF this] other(1) show ?thesis by (simp add: entry markdown_names_def)
  next
    case unreadable
    with Cons.prems entry show ?thesis by simp
  next
    case (skip content)
    with Cons.prems entry
    have "process_files rest (st\<lparr>opened := opened st @ [filename]\<rparr>) = (None, st')" by simp
    from Cons.IH[OF this] skip(1,2,3) show ?thesis by (simp add: entry markdown_names_def)
  next
    case (fail content e err)
    with Cons.prems entry show ?thesis by simp
  next
    case (merge content e s1)
    with Cons.prems entry
    have "process_files rest (st\<lparr>opened := opened st @ [filename], settings := s1,
            printed := printed st @ [Updated_agent (agent_id_of filename)]\<rparr>) = (None, st')"
      by simp
    from Cons.IH[OF this] merge(1,2,3,4) show ?thesis by (simp add: entry markdown_names_def)
  qed
qed

text \<open>Whether the loop gets through a listing depends on the settings only through the
  merges.\<close>

lemma process_files_replay:
  "process_files listing st = (None, st') \<Longrightarrow> merge_all (merged listing) s2 = Inr s2' \<Longrightarrow>
     process_files listing (st\<lparr>settings := s2\<rparr>) = (None, st'\<lparr>settings := s2'\<rparr>)"
proof (induction listing arbitrary: st s2)
  case Nil
  then show ?case by simp
next
  case (Cons entry rest)
  obtain filename doc where entry: "entry = (filename, doc)" by (cases entry)
  obtain a b c where st: "st = \<lparr>settings = a, printed = b, opened = c\<rparr>"
    by (cases st) auto
  show ?case
  proof (cases filename doc st rule: process_file_cases)
    case other
    with Cons.prems entry have p: "process_files rest st = (None, st')"
      and m: "merge_all (merged rest) s2 = Inr s2'" by simp_all
    from Cons.IH[OF p m] other(1) show ?thesis by (simp add: entry process_file_other)
  next
    case unreadable
    with Cons.prems entry show ?thesis by simp
  next
    case (skip content)
    with Cons.prems entry
    have p: "process_files rest (st\<lparr>opened := opened st @ [filename]\<rparr>) = (None, st')"
      and m: "merge_all (merged rest) s2 = Inr s2'" by simp_all
    from Cons.IH[OF p m] skip(1,2,3) show ?thesis
      by (simp add: entry process_file_skip st)
  next
    case (fail content e err)
    with Cons.prems entry show ?thesis by simp
  next
    case (merge content e s1)
    with Cons.prems entry
    have p: "process_files rest (st\<lparr>opened := opened st @ [filename], settings := s1,
            printed := printed st @ [Updated_agent (agent_id_of filename)]\<rparr>) = (None, st')"
      by simp
    from Cons.prems(2) merge(1,2,3) entry obtain s3 where
      s3: "merge_entry s2 (agent_id_of filename) e = Inr s3"
      and m: "merge_all (merged rest) s3 = Inr s2'"
      by (auto split: sum.splits)
    from Cons.IH[OF p m] merge(1,2,3) s3 show ?thesis
      by (simp add: entry process_file_merge st)
  qed
qed

subsection \<open>A run that writes the settings file\<close>

lemma run_written:
  assumes "written (run w) = Some s'"
  shows "\<exists>s0 listing st.
           settings_file w = Json s0 \<and> agents_dir w = Some listing
           \<and> process_files listing \<lparr>settings = s0, printed = [], opened = []\<rparr> = (None, st)
           \<and> settings st = s'
           \<and> merge_all (merged listing) s0 = Inr s'
           \<and> stdout (run w) = map (\<lambda>u. Updated_agent (fst u)) (merged listing)
                 @ (case summary_count s' of Inl e \<Rightarrow> [] | Inr n \<Rightarrow> [Summary n])"
proof -
  from assms obtain s0 where s0: "settings_file w = Json s0"
    by (cases "settings_file w") (auto simp: run_def)
  from assms s0 obtain listing where l: "agents_dir w = Some listing"
    by (cases "agents_dir w") (auto simp: run_def)
  let ?st0 = "\<lparr>settings = s0, printed = [], opened = []\<rparr>"
  obtain r st1 where p: "process_files listing ?st0 = (r, st1)"
    by (cases "process_files listing ?st0")
  from assms s0 l p have r: "r = None" and s1: "settings st1 = s'"
    by (cases r; auto simp: run_def split: if_splits sum.splits)+
  from process_files_success[OF p[unfolded r]] s1 assms s0 l p r show ?thesis
    by (auto simp: run_def split: if_splits sum.splits)
qed

subsection \<open>The sample runs\<close>

lemma run_sample_world:
  "run sample_world =
     \<lparr>raised = None, stdout = [Updated_agent ''x'', Summary 2],
      files_read = [''x.md'', ''draft.md'', ''noname.md''],
      written = Some (JObj sample_store_after)\<rparr>"
  by code_simp

lemma run_count_world:
  "run count_world =
     \<lparr>raised = None,
      stdout = [Updated_agent ''a'', Updated_agent ''b'', Updated_agent ''c'', Summary 4],
      files_read = [''a.md'', ''d.md'', ''b.md'', ''e.md'', ''c.md''],
      written = Some (JObj [(''agents'',
        JObj [(''stale'', old_entry), (''a'', foo_bar_entry), (''b'', foo_bar_entry),
              (''c'', foo_bar_entry)])])\<rparr>"
  by code_simp


lemma doc_foo_bar_fields:
  "parse_document doc_foo_bar = Some (join_lines [''name: Foo'', ''description: Bar''], ''Hello world'')"
  "extract_field (join_lines [''name: Foo'', ''description: Bar'']) ''name'' = Some ''Foo''"
  "extract_field (join_lines [''name: Foo'', ''description: Bar'']) ''description'' = Some ''Bar''"
  by code_simp+

section \<open>The claims\<close>

text \<open>
  C1 (preservation). When the loaded settings are a JSON object and the run writes the
  settings file, what it writes is again an object, and every top-level key other than
  \<^verbatim>\<open>agents\<close> has in it the value it had before the run (a key that was absent stays
  absent). A run that does not reach the write leaves the file as it was.
\<close>

theorem other_keys_preserved:
  assumes "settings_file w = Json (JObj d)"
    and "written (run w) = Some s'"
    and "k \<noteq> ''agents''"
  shows "\<exists>d'. s' = JObj d' \<and> map_of d' k = map_of d k"
proof -
  from run_written[OF assms(2)] assms(1) obtain listing st where
    p: "process_files listing \<lparr>settings = JObj d, printed = [], opened = []\<rparr> = (None, st)"
    and s': "settings st = s'" by auto
  from process_files_frame[OF p _ assms(3)] s' show ?thesis by auto
qed

theorem other_keys_preserved_witness:
  "settings_file sample_world = Json (JObj sample_store)
   \<and> written (run sample_world) = Some (JObj sample_store_after)
   \<and> ''theme'' \<noteq> ''agents''
   \<and> map_of sample_store ''theme'' = Some (JStr ''dark'')
   \<and> map_of sample_store_after ''theme'' = map_of sample_store ''theme''"
proof -
  have h1: "settings_file sample_world = Json (JObj sample_store)"
    by (simp add: sample_world_def)
  have h2: "written (run sample_world) = Some (JObj sample_store_after)"
    by (simp add: run_sample_world)
  have h3: "''theme'' \<noteq> ''agents''" by simp
  from other_keys_preserved[OF h1 h2 h3]
  have "map_of sample_store_after ''theme'' = map_of sample_store ''theme''" by simp
  with h1 h2 h3 show ?thesis by (simp add: sample_store_def)
qed

text \<open>
  C2 (round trip). The claim does not hold for every header that contains the two lines:
  the search takes the first line that begins with \<^verbatim>\<open>name:\<close>, so a header with the lines
  \<^verbatim>\<open>name: Other\<close>, \<^verbatim>\<open>name: Foo\<close> and \<^verbatim>\<open>description: Bar\<close> gives the name \<^verbatim>\<open>Other\<close>.
\<close>

theorem round_trip_first_name_line_wins:
  "split_lines doc_two_names =
     [''---'', ''name: Other'', ''name: Foo'', ''description: Bar'', ''---'', ''Hello world'']
   \<and> run two_names_world =
       \<lparr>raised = None, stdout = [Updated_agent ''x'', Summary 1], files_read = [''x.md''],
        written = Some (JObj [(''agents'',
          JObj [(''x'', JObj [(''name'', JStr ''Other''), (''description'', JStr ''Bar''),
                              (''systemPrompt'', JStr ''Hello world'')])])])\<rparr>
   \<and> agents_entry
         (JObj [(''agents'',
            JObj [(''x'', JObj [(''name'', JStr ''Other''), (''description'', JStr ''Bar''),
                                (''systemPrompt'', JStr ''Hello world'')])])]) ''x''
       \<noteq> Some (JObj [(''name'', JStr ''Foo''), (''description'', JStr ''Bar''),
                       (''systemPrompt'', JStr ''Hello world'')])"
  by code_simp



text \<open>
  C3 (identifier). The script computes the identifier with \<^verbatim>\<open>filename.replace('.md', '')\<close>,
  which removes every occurrence of \<^verbatim>\<open>.md\<close> and not only the extension: the file
  \<^verbatim>\<open>a.md.md\<close> is processed, its identifier is \<^verbatim>\<open>a\<close>, and its name without the extension
  is \<^verbatim>\<open>a.md\<close>. In a directory that holds \<^verbatim>\<open>a.md\<close> and \<^verbatim>\<open>a.md.md\<close> both documents are
  merged under the key \<^verbatim>\<open>a\<close>, and the entry of the first is lost.
\<close>

theorem identifier_of_a_md_md:
  "endswith ''a.md.md'' ''.md''
   \<and> agent_id_of ''a.md.md'' = ''a''
   \<and> filename_without_extension ''a.md.md'' = ''a.md''
   \<and> run clash_world =
       \<lparr>raised = None, stdout = [Updated_agent ''a'', Updated_agent ''a'', Summary 1],
        files_read = [''a.md'', ''a.md.md''],
        written = Some (JObj [(''agents'',
          JObj [(''a'', JObj [(''name'', JStr ''Other''), (''description'', JStr ''Baz''),
                              (''systemPrompt'', JStr ''Second'')])])])\<rparr>"
  by code_simp

text \<open>
  C4 (field extraction). In \<^verbatim>\<open>^name:\s*(.+)$\<close> the class \<^verbatim>\<open>\s\<close> also matches a line feed:
  when nothing but whitespace follows \<^verbatim>\<open>name:\<close> on its line, the value is taken from the
  next line that is not blank. On the header made of the two lines \<^verbatim>\<open>name:\<close> and
  \<^verbatim>\<open>description: Bar\<close> the field \<^verbatim>\<open>name\<close> comes out as \<^verbatim>\<open>description: Bar\<close>, and a
  document with that header is merged under that name.
\<close>

theorem name_taken_from_next_line:
  "extract_field (join_lines [''name:'', ''description: Bar'']) ''name'' = Some ''description: Bar''
   \<and> document_entry doc_empty_name =
         Some (JObj [(''name'', JStr ''description: Bar''), (''description'', JStr ''Bar''),
                     (''systemPrompt'', JStr ''Hello world'')])"
  by code_simp

text \<open>
  C5 (skip on malformed input). Take a document that has no line \<^verbatim>\<open>---\<close> after its first
  line, or whose header has no line beginning with \<^verbatim>\<open>name:\<close>. The loop body goes over it
  without touching the settings or printing anything. When it is the only markdown file of
  the directory with its identifier and the run writes the settings file, the entry under
  that identifier is after the run what it was before (none, if there was none), and no
  \<^verbatim>\<open>Updated agent\<close> line is printed for the identifier.
\<close>

theorem malformed_document_skipped:
  assumes "''---'' \<notin> set (tl (split_lines content))
           \<or> (\<exists>header body. parse_document content = Some (header, body)
                \<and> (\<forall>l\<in>set (split_lines header). \<not> prefix ''name:'' l))"
    and "settings_file w = Json s0"
    and "agents_dir w = Some listing"
    and "(filename, Some content) \<in> set listing"
    and "\<forall>e\<in>set listing. endswith (fst e) ''.md'' \<and> agent_id_of (fst e) = agent_id_of filename
           \<longrightarrow> e = (filename, Some content)"
    and "written (run w) = Some s'"
  shows "process_file (filename, Some content) st =
           (None, if endswith filename ''.md''
                  then st\<lparr>opened := opened st @ [filename]\<rparr> else st)
         \<and> agents_entry s' (agent_id_of filename) = agents_entry s0 (agent_id_of filename)
         \<and> Updated_agent (agent_id_of filename) \<notin> set (stdout (run w))"
proof -
  have none: "document_entry content = None" by (rule malformed_no_entry[OF assms(1)])
  then have body: "process_file (filename, Some content) st =
           (None, if endswith filename ''.md''
                  then st\<lparr>opened := opened st @ [filename]\<rparr> else st)"
    by (simp add: process_file_skip process_file_other)
  have notin: "agent_id_of filename \<notin> fst ` set (merged listing)"
  proof
    assume "agent_id_of filename \<in> fst ` set (merged listing)"
    then obtain entry where "(agent_id_of filename, entry) \<in> set (merged listing)" by auto
    from merged_origin[OF this] obtain fn c where
      "(fn, Some c) \<in> set listing" "endswith fn ''.md''" "document_entry c = Some entry"
      "agent_id_of filename = agent_id_of fn" by blast
    with assms(5) none show False by force
  qed
  from run_written[OF assms(6)] assms(2,3)
  have m: "merge_all (merged listing) s0 = Inr s'"
    and out: "stdout (run w) = map (\<lambda>u. Updated_agent (fst u)) (merged listing)
                 @ (case summary_count s' of Inl e \<Rightarrow> [] | Inr n \<Rightarrow> [Summary n])"
    by auto
  from merge_all_other[OF m notin] out notin body show ?thesis
    by (auto split: sum.splits)
qed

theorem malformed_document_skipped_witness:
  "''---'' \<notin> set (tl (split_lines doc_no_closing))
   \<and> parse_document doc_no_name = Some (''description: Bar'', ''Hello world'')
   \<and> split_lines ''description: Bar'' = [''description: Bar'']
   \<and> \<not> prefix ''name:'' ''description: Bar''
   \<and> map (\<lambda>e. agent_id_of (fst e)) sample_listing = [''x'', ''notes.txt'', ''draft'', ''noname'']
   \<and> settings_file sample_world = Json (JObj sample_store)
   \<and> agents_dir sample_world = Some sample_listing
   \<and> (''draft.md'', Some doc_no_closing) \<in> set sample_listing
   \<and> (''noname.md'', Some doc_no_name) \<in> set sample_listing
   \<and> written (run sample_world) = Some (JObj sample_store_after)
   \<and> agents_entry (JObj sample_store) (agent_id_of ''draft.md'') = Some (JStr ''kept'')
   \<and> agents_entry (JObj sample_store_after) (agent_id_of ''draft.md'') = Some (JStr ''kept'')
   \<and> Updated_agent (agent_id_of ''draft.md'') \<notin> set (stdout (run sample_world))
   \<and> agents_entry (JObj sample_store_after) (agent_id_of ''noname.md'') = None
   \<and> Updated_agent (agent_id_of ''noname.md'') \<notin> set (stdout (run sample_world))"
proof -
  have a1: "''---'' \<notin> set (tl (split_lines doc_no_closing))" by code_simp
  have p: "parse_document doc_no_name = Some (''description: Bar'', ''Hello world'')"
    by code_simp
  have "\<forall>l\<in>set (split_lines ''description: Bar''). \<not> prefix ''name:'' l" by code_simp
  with p have b1: "\<exists>header body. parse_document doc_no_name = Some (header, body)
         \<and> (\<forall>l\<in>set (split_lines header). \<not> prefix ''name:'' l)" by blast
  have h2: "settings_file sample_world = Json (JObj sample_store)"
    and h3: "agents_dir sample_world = Some sample_listing"
    by (simp_all add: sample_world_def)
  have a4: "(''draft.md'', Some doc_no_closing) \<in> set sample_listing"
    and b4: "(''noname.md'', Some doc_no_name) \<in> set sample_listing"
    by (simp_all add: sample_listing_def)
  have a5: "\<forall>e\<in>set sample_listing.
      endswith (fst e) ''.md'' \<and> agent_id_of (fst e) = agent_id_of ''draft.md''
        \<longrightarrow> e = (''draft.md'', Some doc_no_closing)"
    by code_simp
  have b5: "\<forall>e\<in>set sample_listing.
      endswith (fst e) ''.md'' \<and> agent_id_of (fst e) = agent_id_of ''noname.md''
        \<longrightarrow> e = (''noname.md'', Some doc_no_name)"
    by code_simp
  have h6: "written (run sample_world) = Some (JObj sample_store_after)"
    by (simp add: run_sample_world)
  have before: "agents_entry (JObj sample_store) (agent_id_of ''draft.md'') = Some (JStr ''kept'')"
    "agents_entry (JObj sample_store) (agent_id_of ''noname.md'') = None"
    by code_simp+
  have l: "split_lines ''description: Bar'' = [''description: Bar'']"
    and n: "\<not> prefix ''name:'' ''description: Bar''"
    and ids: "map (\<lambda>e. agent_id_of (fst e)) sample_listing
                = [''x'', ''notes.txt'', ''draft'', ''noname'']"
    by code_simp+
  from malformed_document_skipped[OF disjI1[OF a1] h2 h3 a4 a5 h6]
       malformed_document_skipped[OF disjI2[OF b1] h2 h3 b4 b5 h6]
       a1 p l n ids h2 h3 a4 b4 h6 before
  show ?thesis by simp
qed

text \<open>
  C6 (idempotence). When a run writes the settings file, a second run on the same directory
  that loads what the first one wrote behaves as the first did and writes the same store
  again: the whole store, and so its \<^verbatim>\<open>agents\<close> mapping, is the one of the first run, key
  order included.
\<close>

theorem second_run_writes_the_same:
  assumes "written (run w) = Some s1"
  shows "written (run (w\<lparr>settings_file := Json s1\<rparr>)) = Some s1
         \<and> run (w\<lparr>settings_file := Json s1\<rparr>) = run w"
proof -
  from run_written[OF assms] obtain s0 listing st1 where
    s0: "settings_file w = Json s0" and l: "agents_dir w = Some listing"
    and p: "process_files listing \<lparr>settings = s0, printed = [], opened = []\<rparr> = (None, st1)"
    and s1: "settings st1 = s1"
    and m: "merge_all (merged listing) s0 = Inr s1"
    by blast
  from m have "merge_all (merged listing) s1 = Inr s1" by (rule merge_all_idem)
  from process_files_replay[OF p this]
  have "process_files listing \<lparr>settings = s1, printed = [], opened = []\<rparr> = (None, st1)"
    by (simp add: s1[symmetric])
  with p s0 l have "run (w\<lparr>settings_file := Json s1\<rparr>) = run w" by (simp add: run_def)
  with assms show ?thesis by simp
qed

theorem second_run_writes_the_same_witness:
  "written (run sample_world) = Some (JObj sample_store_after)
   \<and> written (run (sample_world\<lparr>settings_file := Json (JObj sample_store_after)\<rparr>))
       = Some (JObj sample_store_after)
   \<and> sample_store_after \<noteq> sample_store"
proof -
  have h: "written (run sample_world) = Some (JObj sample_store_after)"
    by (simp add: run_sample_world)
  have "sample_store_after \<noteq> sample_store" by code_simp
  with second_run_writes_the_same[OF h] h show ?thesis by simp
qed

text \<open>
  C7 (overwrite). Take a document in which the frontmatter and both fields are found,
  standing in the directory under a markdown file name whose identifier already has an
  entry in the loaded settings. When no markdown file listed after it has the same
  identifier and the run writes the settings file, the entry written for the identifier
  is the dictionary of the three parsed values and nothing else, whatever the old entry
  was. It is also the entry that stands under the identifier right after the loop body has
  merged the document, whatever the rest of the directory is.
\<close>

theorem entry_replaced_wholesale:
  assumes "agents_dir w = Some (before @ (filename, Some content) # after)"
    and "endswith filename ''.md''"
    and "parse_document content = Some (header, body)"
    and "extract_field header ''name'' = Some name"
    and "extract_field header ''description'' = Some description"
    and "settings_file w = Json s0"
    and "agents_entry s0 (agent_id_of filename) = Some old"
    and "\<forall>e\<in>set after. endswith (fst e) ''.md'' \<longrightarrow> agent_id_of (fst e) \<noteq> agent_id_of filename"
    and "written (run w) = Some s'"
  shows "agents_entry s' (agent_id_of filename) =
           Some (JObj [(''name'', JStr name), (''description'', JStr description),
                       (''systemPrompt'', JStr body)])
         \<and> (\<forall>st st'. process_file (filename, Some content) st = (None, st') \<longrightarrow>
               agents_entry (settings st') (agent_id_of filename) =
                 Some (JObj [(''name'', JStr name), (''description'', JStr description),
                             (''systemPrompt'', JStr body)]))"
proof -
  have entry: "document_entry content = Some (build_entry name description body)"
    using assms(3,4,5) by (simp add: document_entry_def)
  from run_written[OF assms(9)] assms(1,6)
  have "merge_all (merged (before @ (filename, Some content) # after)) s0 = Inr s'"
    by auto
  from final_entry[OF this assms(2) entry no_later_identifier[OF assms(8)]]
       process_file_stores[OF assms(2) entry]
  show ?thesis by (simp add: build_entry_def)
qed

theorem entry_replaced_wholesale_witness:
  "agents_dir sample_world = Some ([] @ (''x.md'', Some doc_foo_bar) # tl sample_listing)
   \<and> endswith ''x.md'' ''.md''
   \<and> parse_document doc_foo_bar
       = Some (join_lines [''name: Foo'', ''description: Bar''], ''Hello world'')
   \<and> extract_field (join_lines [''name: Foo'', ''description: Bar'']) ''name'' = Some ''Foo''
   \<and> extract_field (join_lines [''name: Foo'', ''description: Bar'']) ''description''
       = Some ''Bar''
   \<and> settings_file sample_world = Json (JObj sample_store)
   \<and> agents_entry (JObj sample_store) (agent_id_of ''x.md'')
       = Some (JObj [(''name'', JStr ''Old''), (''extra'', JBool True)])
   \<and> agent_id_of ''x.md'' = ''x''
   \<and> map (\<lambda>e. agent_id_of (fst e)) (tl sample_listing) = [''notes.txt'', ''draft'', ''noname'']
   \<and> written (run sample_world) = Some (JObj sample_store_after)
   \<and> agents_entry (JObj sample_store_after) (agent_id_of ''x.md'') =
         Some (JObj [(''name'', JStr ''Foo''), (''description'', JStr ''Bar''),
                     (''systemPrompt'', JStr ''Hello world'')])"
proof -
  have h1: "agents_dir sample_world = Some ([] @ (''x.md'', Some doc_foo_bar) # tl sample_listing)"
    by (simp add: sample_world_def sample_listing_def)
  have h2: "endswith ''x.md'' ''.md''" by code_simp
  note h3 = doc_foo_bar_fields(1) and h4 = doc_foo_bar_fields(2) and h5 = doc_foo_bar_fields(3)
  have h6: "settings_file sample_world = Json (JObj sample_store)"
    by (simp add: sample_world_def)
  have h7: "agents_entry (JObj sample_store) (agent_id_of ''x.md'')
       = Some (JObj [(''name'', JStr ''Old''), (''extra'', JBool True)])"
    by code_simp
  have h8: "\<forall>e\<in>set (tl sample_listing).
         endswith (fst e) ''.md'' \<longrightarrow> agent_id_of (fst e) \<noteq> agent_id_of ''x.md''"
    by code_simp
  have h9: "written (run sample_world) = Some (JObj sample_store_after)"
    by (simp add: run_sample_world)
  have id: "agent_id_of ''x.md'' = ''x''" by code_simp
  have ids: "map (\<lambda>e. agent_id_of (fst e)) (tl sample_listing)
               = [''notes.txt'', ''draft'', ''noname'']"
    by code_simp
  from entry_replaced_wholesale[OF h1 h2 h3 h4 h5 h6 h7 h8 h9] h1 h2 h3 h4 h5 h6 h7 h9 id ids
  show ?thesis by simp
qed

text \<open>
  C8 (count and progress lines). When the loaded settings are an object whose \<^verbatim>\<open>agents\<close>,
  if present, is a mapping, and the run completes without an exception, the output is one
  line \<^verbatim>\<open>Updated agent: <identifier>\<close> for each merged document, in the order of the
  listing, followed by the summary line, whose count is the number of keys of the
  \<^verbatim>\<open>agents\<close> mapping written to the settings file, entries that belong to no file included.
\<close>

theorem summary_counts_agents:
  assumes "raised (run w) = None"
    and "settings_file w = Json s0"
    and "agents_is_mapping s0"
    and "agents_dir w = Some listing"
  shows "\<exists>s'. written (run w) = Some s'
           \<and> stdout (run w) =
               map (\<lambda>u. Updated_agent (fst u)) (merged listing)
               @ [Summary (card (dom (agents_entry s')))]"
proof -
  let ?st0 = "\<lparr>settings = s0, printed = [], opened = []\<rparr>"
  obtain r st where p: "process_files listing ?st0 = (r, st)"
    by (cases "process_files listing ?st0")
  from assms p have r: "r = None"
    by (cases r) (auto simp: run_def split: if_splits sum.splits)
  note ok = process_files_success[OF p[unfolded r]]
  from merge_all_mapping[OF assms(3), of "merged listing"] ok
  have "agents_is_mapping (settings st)" by auto
  then have "summary_count (settings st) = Inr (card (dom (agents_entry (settings st))))"
    by (rule summary_count_mapping)
  with assms p r ok show ?thesis
    by (auto simp: run_def split: if_splits)
qed

theorem summary_counts_agents_witness:
  "raised (run count_world) = None
   \<and> settings_file count_world = Json count_store
   \<and> agents_is_mapping count_store
   \<and> agents_dir count_world = Some count_listing
   \<and> map (\<lambda>u. Updated_agent (fst u)) (merged count_listing)
       = [Updated_agent ''a'', Updated_agent ''b'', Updated_agent ''c'']
   \<and> stdout (run count_world)
       = [Updated_agent ''a'', Updated_agent ''b'', Updated_agent ''c'', Summary 4]
   \<and> (\<exists>s'. written (run count_world) = Some s' \<and> card (dom (agents_entry s')) = 4)"
proof -
  have h1: "raised (run count_world) = None" by (simp add: run_count_world)
  have h2: "settings_file count_world = Json count_store"
    and h4: "agents_dir count_world = Some count_listing"
    by (simp_all add: count_world_def)
  have h3: "agents_is_mapping count_store" by code_simp
  have m: "map (\<lambda>u. Updated_agent (fst u)) (merged count_listing)
       = [Updated_agent ''a'', Updated_agent ''b'', Updated_agent ''c'']"
    by code_simp
  have out: "stdout (run count_world)
       = [Updated_agent ''a'', Updated_agent ''b'', Updated_agent ''c'', Summary 4]"
    by (simp add: run_count_world)
  from summary_counts_agents[OF h1 h2 h3 h4] m out
  have "\<exists>s'. written (run count_world) = Some s' \<and> card (dom (agents_entry s')) = 4"
    by auto
  with h1 h2 h3 h4 m out show ?thesis by simp
qed

text \<open>
  C9 (settings load error). When the settings file is missing or is not valid JSON, the
  run ends with the exception of the load: no document has been opened, nothing has been
  printed and the settings file is not written.
\<close>

theorem load_error_aborts:
  assumes "settings_file w = Missing \<or> settings_file w = Not_json"
  shows "raised (run w) \<noteq> None \<and> files_read (run w) = [] \<and> stdout (run w) = []
         \<and> written (run w) = None"
  using assms by (auto simp: run_def)

theorem load_error_aborts_witness:
  "settings_file (sample_world\<lparr>settings_file := Not_json\<rparr>) = Not_json
   \<and> settings_file (sample_world\<lparr>settings_file := Missing\<rparr>) = Missing
   \<and> raised (run (sample_world\<lparr>settings_file := Not_json\<rparr>)) = Some JSONDecodeError
   \<and> raised (run (sample_world\<lparr>settings_file := Missing\<rparr>)) = Some FileNotFoundError
   \<and> files_read (run (sample_world\<lparr>settings_file := Not_json\<rparr>)) = []
   \<and> files_read (run (sample_world\<lparr>settings_file := Missing\<rparr>)) = []
   \<and> written (run (sample_world\<lparr>settings_file := Not_json\<rparr>)) = None
   \<and> written (run (sample_world\<lparr>settings_file := Missing\<rparr>)) = None"
proof -
  have a: "settings_file (sample_world\<lparr>settings_file := Not_json\<rparr>) = Not_json"
    and b: "settings_file (sample_world\<lparr>settings_file := Missing\<rparr>) = Missing"
    by simp_all
  from load_error_aborts[OF disjI2[OF a]] load_error_aborts[OF disjI1[OF b]] a b
  show ?thesis by (simp add: run_def)
qed

text \<open>
  C10 (closing delimiter at the end of the file). When the only line \<^verbatim>\<open>---\<close> after the
  first line of a document is its last line, with no line feed after it, the frontmatter
  pattern does not match: \<open>parse_document\<close> returns nothing, and the loop body goes on to
  the next file with the settings and the output as they were.
\<close>

theorem closing_delimiter_needs_newline:
  assumes "split_lines content = first # middle @ [''---'']"
    and "''---'' \<notin> set middle"
  shows "parse_document content = None
         \<and> process_file (filename, Some content) st =
             (None, if endswith filename ''.md''
                    then st\<lparr>opened := opened st @ [filename]\<rparr> else st)"
proof -
  have "frontmatter_match content = None"
  proof (cases "frontmatter_match content")
    case None
    then show ?thesis .
  next
    case (Some p)
    obtain h b where p: "p = (h, b)" by (cases p)
    from frontmatter_match_lines[of content h b] Some p assms(1)
    have eq: "first # middle @ [''---''] = ''---'' # split_lines h @ ''---'' # split_lines b"
      by simp
    obtain ls l where sb: "split_lines b = ls @ [l]"
      using split_lines_nonempty[of b] by (metis rev_exhaust)
    from eq sb have "middle @ [''---''] = (split_lines h @ ''---'' # ls) @ [l]" by simp
    then have "middle = split_lines h @ ''---'' # ls" by (simp only: append1_eq_conv)
    with assms(2) show ?thesis by simp
  qed
  then have "parse_document content = None" by (simp add: parse_document_def)
  then show ?thesis
    by (simp add: process_file_skip process_file_other document_entry_def)
qed

theorem closing_delimiter_needs_newline_witness:
  "split_lines (join_lines [''---'', ''name: Foo'', ''description: Bar'', ''---''])
     = ''---'' # [''name: Foo'', ''description: Bar''] @ [''---'']
   \<and> ''---'' \<notin> set [''name: Foo'', ''description: Bar'']
   \<and> parse_document (join_lines [''---'', ''name: Foo'', ''description: Bar'', ''---'']) = None"
proof -
  have h1: "split_lines (join_lines [''---'', ''name: Foo'', ''description: Bar'', ''---''])
     = ''---'' # [''name: Foo'', ''description: Bar''] @ [''---'']"
    by code_simp
  have h2: "''---'' \<notin> set [''name: Foo'', ''description: Bar'']" by simp
  from closing_delimiter_needs_newline[OF h1 h2] h1 h2 show ?thesis by blast
qed

end
